theory Spec2Isabelle
  imports Main
begin

section \<open>The world outside the program\<close>

text \<open>
  The crawl engine of \<^verbatim>\<open>brokenlinkchecker-dashboard.py\<close> talks to the network through
  \<^verbatim>\<open>requests\<close>, parses markup with \<^verbatim>\<open>BeautifulSoup\<close> and handles URLs with
  \<^verbatim>\<open>urllib.parse\<close>. None of these libraries is code of the repository, so they are
  parameters of the model, collected in the record \<open>env\<close>.

  The calls that the source wraps in \<^verbatim>\<open>try\<close> (\<^verbatim>\<open>requests.get\<close>, \<^verbatim>\<open>raise_for_status\<close>,
  \<^verbatim>\<open>requests.head\<close>) either return or raise an instance of \<^verbatim>\<open>Exception\<close>; both are
  values of \<open>'a outcome\<close>. The network may answer the same request differently at
  different times, so \<^verbatim>\<open>requests.get\<close> and \<^verbatim>\<open>requests.head\<close> take the list of all
  requests made so far (the trace) besides the URL.

  Outside the model: exceptions that are not instances of \<^verbatim>\<open>Exception\<close>
  (\<^verbatim>\<open>KeyboardInterrupt\<close>, \<^verbatim>\<open>SystemExit\<close>), which no handler of the source catches; the
  \<^verbatim>\<open>ValueError\<close> that \<^verbatim>\<open>urljoin\<close> and \<^verbatim>\<open>urlparse\<close> raise on a malformed bracketed host,
  since the parser and the URL functions are taken as total; and the limit of the
  interpreter on the depth of recursion.
\<close>

datatype exn = Exn string

datatype 'a outcome = Returned 'a | Raised exn

record response =
  status_code :: int
  page_text :: string

text \<open>
  A parsed document is the list of its tags in document order, which is the order
  in which \<^verbatim>\<open>soup.find_all\<close> reports them. A tag has a name and a dictionary of
  attributes.
\<close>

type_synonym element = "string \<times> (string \<rightharpoonup> string)"

type_synonym soup = "element list"

datatype event = Get string | Head string

text \<open>
  A Python \<^verbatim>\<open>set\<close> is modelled by the list of its elements in insertion order, without
  repetition. The order in which a \<^verbatim>\<open>for\<close> loop runs through a set is not specified
  by the language, so it is the parameter \<open>set_order\<close>: it maps the insertion order to
  the iteration order.
\<close>

record env =
  requests_get :: "event list \<Rightarrow> string \<Rightarrow> response outcome"
  requests_head :: "event list \<Rightarrow> string \<Rightarrow> response outcome"
  raise_for_status :: "response \<Rightarrow> exn option"
  html_parser :: "string \<Rightarrow> soup"
  urljoin :: "string \<Rightarrow> string \<Rightarrow> string"
  urlparse_netloc :: "string \<Rightarrow> string"
  set_order :: "string list \<Rightarrow> string list"


section \<open>The scope classifier, the link checker and the link extractor\<close>

text \<open>
  \<^verbatim>\<open>
  def is_internal(url, base_netloc):
      parsed = urlparse(url)
      return parsed.netloc == '' or parsed.netloc == base_netloc
  \<close>
\<close>

definition is_internal :: "env \<Rightarrow> string \<Rightarrow> string \<Rightarrow> bool" where
  "is_internal env url base_netloc =
     (let netloc = urlparse_netloc env url in netloc = [] \<or> netloc = base_netloc)"

text \<open>
  \<^verbatim>\<open>
  def check_link(url):
      try:
          response = requests.head(url, allow_redirects=True, timeout=5)
          return response.status_code, response.status_code < 400
      except Exception:
          return None, False
  \<close>
  The handler catches every exception of the model, so the result is a plain pair.
\<close>

definition check_link :: "env \<Rightarrow> event list \<Rightarrow> string \<Rightarrow> int option \<times> bool" where
  "check_link env tr url =
     (case requests_head env tr url of
        Returned response \<Rightarrow> (Some (status_code response), status_code response < 400)
      | Raised e \<Rightarrow> (None, False))"

text \<open>
  \<^verbatim>\<open>
  def extract_links(soup, base_url):
      tags_attrs = [('a', 'href'), ('img', 'src'), ('script', 'src'), ('link', 'href')]
      links = set()
      for tag, attr in tags_attrs:
          for element in soup.find_all(tag):
              link = element.get(attr)
              if link:
                  full_url = urljoin(base_url, link)
                  links.add(full_url)
      return links
  \<close>
  \<^verbatim>\<open>element.get(attr)\<close> is \<^verbatim>\<open>None\<close> for a missing attribute; \<^verbatim>\<open>None\<close> and the empty
  string are both false in the test \<^verbatim>\<open>if link\<close>.
\<close>

definition tags_attrs :: "(string \<times> string) list" where
  "tags_attrs = [(''a'', ''href''), (''img'', ''src''), (''script'', ''src''), (''link'', ''href'')]"

definition find_all :: "soup \<Rightarrow> string \<Rightarrow> element list" where
  "find_all soup tag = filter (\<lambda>element. fst element = tag) soup"

definition element_get :: "element \<Rightarrow> string \<Rightarrow> string option" where
  "element_get element attr = snd element attr"

definition set_add :: "'a \<Rightarrow> 'a list \<Rightarrow> 'a list" where
  "set_add x xs = (if x \<in> set xs then xs else xs @ [x])"

definition extract_element :: "env \<Rightarrow> string \<Rightarrow> string \<Rightarrow> element \<Rightarrow> string list \<Rightarrow> string list" where
  "extract_element env base_url attr element links =
     (case element_get element attr of
        None \<Rightarrow> links
      | Some link \<Rightarrow>
          if link \<noteq> [] then set_add (urljoin env base_url link) links else links)"

definition extract_links :: "env \<Rightarrow> soup \<Rightarrow> string \<Rightarrow> string list" where
  "extract_links env soup base_url =
     fold (\<lambda>(tag, attr) links.
             fold (extract_element env base_url attr) (find_all soup tag) links)
       tags_attrs []"

section \<open>The crawl engine\<close>

text \<open>
  A link record is the tuple \<^verbatim>\<open>(url, status_code, ok, note)\<close> that the code appends
  to \<^verbatim>\<open>results\<close>. The state of a crawl is the two objects that \<^verbatim>\<open>crawl\<close> mutates,
  \<^verbatim>\<open>visited\<close> and \<^verbatim>\<open>results\<close>, and the trace of the requests sent to the network.
  The arguments \<^verbatim>\<open>progress_bar\<close>, \<^verbatim>\<open>progress_state\<close> and \<^verbatim>\<open>live_log\<close> only drive the
  display and are left out.
\<close>

type_synonym link_record = "string \<times> int option \<times> bool \<times> string"

record crawl_state =
  visited :: "string set"
  results :: "link_record list"
  trace :: "event list"

text \<open>
  The body of the \<^verbatim>\<open>try\<close> block of \<^verbatim>\<open>crawl\<close>:
  \<^verbatim>\<open>
      page = requests.get(url, timeout=10)
      page.raise_for_status()
  \<close>
\<close>

definition fetch_page :: "env \<Rightarrow> event list \<Rightarrow> string \<Rightarrow> response outcome" where
  "fetch_page env tr url =
     (case requests_get env tr url of
        Raised e \<Rightarrow> Raised e
      | Returned page \<Rightarrow>
          (case raise_for_status env page of
             Some e \<Rightarrow> Raised e
           | None \<Rightarrow> Returned page))"

definition page_links :: "env \<Rightarrow> response \<Rightarrow> string \<Rightarrow> string list" where
  "page_links env page url =
     set_order env (extract_links env (html_parser env (page_text page)) url)"

text \<open>
  \<^verbatim>\<open>
  def crawl(url, base_netloc, visited, results, depth, max_depth, ...):
      if depth > max_depth or url in visited:
          return
      visited.add(url)
      try:
          page = requests.get(url, timeout=10)
          page.raise_for_status()
      except Exception as e:
          results.append((url, None, False, "PAGE ERROR"))
          return
      soup = BeautifulSoup(page.text, "html.parser")
      links = extract_links(soup, url)
      for link in links:
          if link not in visited:
              status_code, ok = check_link(link)
              results.append((link, status_code, ok, ""))
              if is_internal(link, base_netloc):
                  crawl(link, base_netloc, visited, results, depth + 1, max_depth, ...)
  \<close>
  \<open>crawl_links\<close> is the \<^verbatim>\<open>for\<close> loop, on the links still to come.
\<close>

function crawl :: "env \<Rightarrow> string \<Rightarrow> string \<Rightarrow> int \<Rightarrow> int \<Rightarrow> crawl_state \<Rightarrow> crawl_state"
  and crawl_links :: "env \<Rightarrow> string \<Rightarrow> int \<Rightarrow> int \<Rightarrow> string list \<Rightarrow> crawl_state \<Rightarrow> crawl_state"
where
  "crawl env url base_netloc depth max_depth s =
     (if depth > max_depth \<or> url \<in> visited s then s
      else
        (case fetch_page env (trace s) url of
           Raised e \<Rightarrow>
             s\<lparr>visited := insert url (visited s),
               results := results s @ [(url, None, False, ''PAGE ERROR'')],
               trace := trace s @ [Get url]\<rparr>
         | Returned page \<Rightarrow>
             crawl_links env base_netloc depth max_depth (page_links env page url)
               (s\<lparr>visited := insert url (visited s), trace := trace s @ [Get url]\<rparr>)))"
| "crawl_links env base_netloc depth max_depth [] s = s"
| "crawl_links env base_netloc depth max_depth (link # links) s =
     (if link \<notin> visited s then
        crawl_links env base_netloc depth max_depth links
          (if is_internal env link base_netloc then
             crawl env link base_netloc (depth + 1) max_depth
               (s\<lparr>results := results s @ [(link, fst (check_link env (trace s) link),
                                              snd (check_link env (trace s) link), [])],
                  trace := trace s @ [Head link]\<rparr>)
           else
             s\<lparr>results := results s @ [(link, fst (check_link env (trace s) link),
                                            snd (check_link env (trace s) link), [])],
                trace := trace s @ [Head link]\<rparr>)
      else crawl_links env base_netloc depth max_depth links s)"
  by pat_completeness auto
termination
  by (relation "measures [\<lambda>x. case x of
                     Inl (env, url, base_netloc, depth, max_depth, s) \<Rightarrow> 2 * nat (max_depth + 1 - depth)
                   | Inr (env, base_netloc, depth, max_depth, links, s) \<Rightarrow> 2 * nat (max_depth - depth) + 1,
                  \<lambda>x. case x of
                     Inl (env, url, base_netloc, depth, max_depth, s) \<Rightarrow> 0
                   | Inr (env, base_netloc, depth, max_depth, links, s) \<Rightarrow> length links]")
    auto

declare crawl.simps [simp del]

text \<open>
  The script starts a crawl from the URL typed by the user (lines 111 to 135 of the
  source): \<^verbatim>\<open>visited\<close> and \<^verbatim>\<open>results\<close> are empty, the origin host is the network
  location of the seed, and the depth is 0. Before that, the script has fetched the
  seed once to size the progress bar, which is the one request in the initial trace.
\<close>

definition initial_state :: "string \<Rightarrow> crawl_state" where
  "initial_state base_url = \<lparr>visited = {}, results = [], trace = [Get base_url]\<rparr>"

definition start_checking :: "env \<Rightarrow> string \<Rightarrow> int \<Rightarrow> crawl_state" where
  "start_checking env base_url depth =
     (let base_netloc = urlparse_netloc env base_url
      in crawl env base_url base_netloc 0 depth (initial_state base_url))"

subsection \<open>What a call adds to the state\<close>

fun pages_fetched :: "event list \<Rightarrow> string list" where
  "pages_fetched [] = []"
| "pages_fetched (Get url # evs) = url # pages_fetched evs"
| "pages_fetched (Head url # evs) = pages_fetched evs"

fun links_checked :: "event list \<Rightarrow> string list" where
  "links_checked [] = []"
| "links_checked (Get url # evs) = links_checked evs"
| "links_checked (Head url # evs) = url # links_checked evs"

definition new_events :: "crawl_state \<Rightarrow> crawl_state \<Rightarrow> event list" where
  "new_events s s' = drop (length (trace s)) (trace s')"

definition new_results :: "crawl_state \<Rightarrow> crawl_state \<Rightarrow> link_record list" where
  "new_results s s' = drop (length (results s)) (results s')"

section \<open>The result aggregator\<close>

text \<open>
  \<^verbatim>\<open>
      unique_results = {}
      for url, status_code, ok, note in results:
          unique_results[url] = (status_code, ok, note)
      results = [(url, *unique_results[url]) for url in unique_results]
      total = len(results)
      broken = sum(1 for _, _, ok, _ in results if not ok)
      working = total - broken
  \<close>
  A Python \<^verbatim>\<open>dict\<close> keeps its keys in the order of their first insertion, and an
  assignment to a key that is present replaces the value in place. It is modelled by
  an association list. A lookup of a missing key raises \<^verbatim>\<open>KeyError\<close>, which is the
  value \<open>None\<close> of \<open>dict_getitem\<close> and of the comprehension \<open>result_rows\<close>.
\<close>

fun dict_setitem :: "('k \<times> 'v) list \<Rightarrow> 'k \<Rightarrow> 'v \<Rightarrow> ('k \<times> 'v) list" where
  "dict_setitem [] k v = [(k, v)]"
| "dict_setitem ((k', v') # d) k v =
     (if k' = k then (k', v) # d else (k', v') # dict_setitem d k v)"

fun dict_getitem :: "('k \<times> 'v) list \<Rightarrow> 'k \<Rightarrow> 'v option" where
  "dict_getitem [] k = None"
| "dict_getitem ((k', v') # d) k = (if k' = k then Some v' else dict_getitem d k)"

definition dict_keys :: "('k \<times> 'v) list \<Rightarrow> 'k list" where
  "dict_keys d = map fst d"

definition unique_results :: "link_record list \<Rightarrow> (string \<times> int option \<times> bool \<times> string) list" where
  "unique_results results_list =
     fold (\<lambda>(url, status_code, ok, note) d. dict_setitem d url (status_code, ok, note))
       results_list []"

fun result_rows :: "(string \<times> int option \<times> bool \<times> string) list \<Rightarrow> string list \<Rightarrow> link_record list option" where
  "result_rows d [] = Some []"
| "result_rows d (url # urls) =
     (case dict_getitem d url of
        None \<Rightarrow> None
      | Some v \<Rightarrow>
          (case result_rows d urls of
             None \<Rightarrow> None
           | Some rows \<Rightarrow> Some ((url, v) # rows)))"

definition deduplicate :: "link_record list \<Rightarrow> link_record list option" where
  "deduplicate results_list =
     (let d = unique_results results_list in result_rows d (dict_keys d))"

definition count_broken :: "link_record list \<Rightarrow> int" where
  "count_broken results_list =
     sum_list (map (\<lambda>r. 1) (filter (\<lambda>(url, status_code, ok, note). \<not> ok) results_list))"

record summary =
  total :: int
  working :: int
  broken :: int

definition summarize :: "link_record list \<Rightarrow> summary" where
  "summarize results_list =
     (let total = int (length results_list);
          broken = count_broken results_list;
          working = total - broken
      in \<lparr>total = total, working = working, broken = broken\<rparr>)"

text \<open>
  The order of first occurrence, as the specification words it: a URL is listed where
  it first occurs, and its later occurrences are dropped.
\<close>

fun first_occurrences :: "'a list \<Rightarrow> 'a list" where
  "first_occurrences [] = []"
| "first_occurrences (x # xs) = x # filter (\<lambda>y. y \<noteq> x) (first_occurrences xs)"

section \<open>Auxiliary notions for the properties\<close>



text \<open>
  \<open>extends s s'\<close>: the state \<open>s'\<close> is \<open>s\<close> with requests and records appended, the
  set \<open>visited\<close> has grown by exactly the pages requested in between, and each of
  these pages was requested once and had not been visited before.
\<close>

definition extends :: "crawl_state \<Rightarrow> crawl_state \<Rightarrow> bool" where
  "extends s s' \<longleftrightarrow>
     trace s' = trace s @ new_events s s' \<and>
     results s' = results s @ new_results s s' \<and>
     visited s' = visited s \<union> set (pages_fetched (new_events s s')) \<and>
     distinct (pages_fetched (new_events s s')) \<and>
     set (pages_fetched (new_events s s')) \<inter> visited s = {}"

text \<open>
  One round of the loop of \<^verbatim>\<open>crawl\<close>, for a link that is not in \<open>visited\<close>: the link
  is checked and recorded, then followed when it is internal.
\<close>

definition checked :: "env \<Rightarrow> string \<Rightarrow> crawl_state \<Rightarrow> crawl_state" where
  "checked env link s =
     s\<lparr>results := results s @ [(link, fst (check_link env (trace s) link),
                                    snd (check_link env (trace s) link), [])],
       trace := trace s @ [Head link]\<rparr>"

definition followed :: "env \<Rightarrow> string \<Rightarrow> int \<Rightarrow> int \<Rightarrow> string \<Rightarrow> crawl_state \<Rightarrow> crawl_state" where
  "followed env base_netloc depth max_depth link s =
     (if is_internal env link base_netloc
      then crawl env link base_netloc (depth + 1) max_depth (checked env link s)
      else checked env link s)"


section \<open>A small site\<close>

text \<open>
  A concrete world on which the properties below are exercised. The page
  \<^verbatim>\<open>http://h/\<close> links to \<^verbatim>\<open>/a\<close> and \<^verbatim>\<open>/gone\<close> and shows an image of another host;
  it also has a hyperlink with an empty target and one with none. The page
  \<^verbatim>\<open>http://h/a\<close> links back to \<^verbatim>\<open>http://h/\<close> and refers to the same image. The page
  \<^verbatim>\<open>http://h/gone\<close> answers 404, and the other host does not answer at all. Sets are
  run through in insertion order.
\<close>

definition example_env :: env where
  "example_env =
     \<lparr>requests_get = (\<lambda>tr url.
          if url = ''http://h/'' then Returned \<lparr>status_code = 200, page_text = ''P0''\<rparr>
          else if url = ''http://h/a'' then Returned \<lparr>status_code = 200, page_text = ''P1''\<rparr>
          else if url = ''http://h/gone'' then Returned \<lparr>status_code = 404, page_text = []\<rparr>
          else Raised (Exn ''ConnectionError'')),
      requests_head = (\<lambda>tr url.
          if url = ''http://h/a'' then Returned \<lparr>status_code = 200, page_text = []\<rparr>
          else if url = ''http://h/gone'' then Returned \<lparr>status_code = 404, page_text = []\<rparr>
          else Raised (Exn ''ConnectionError'')),
      raise_for_status = (\<lambda>response.
          if 400 \<le> status_code response \<and> status_code response < 600
          then Some (Exn ''HTTPError'') else None),
      html_parser = (\<lambda>markup.
          if markup = ''P0'' then
            [(''a'', [''href'' \<mapsto> ''/a'']), (''img'', [''src'' \<mapsto> ''http://x/i.png'']),
             (''a'', [''href'' \<mapsto> '''']), (''a'', Map.empty), (''a'', [''href'' \<mapsto> ''/gone''])]
          else if markup = ''P1'' then
            [(''a'', [''href'' \<mapsto> ''/'']), (''link'', [''href'' \<mapsto> ''http://x/i.png''])]
          else []),
      urljoin = (\<lambda>base ref.
          if ref = ''/a'' then ''http://h/a''
          else if ref = ''/'' then ''http://h/''
          else if ref = ''/gone'' then ''http://h/gone''
          else ref),
      urlparse_netloc = (\<lambda>url.
          if url = ''http://h/'' \<or> url = ''http://h/a'' \<or> url = ''http://h/gone'' then ''h''
          else if url = ''http://x/i.png'' then ''x''
          else if url = ''http://H/'' then ''H''
          else []),
      set_order = (\<lambda>links. links)\<rparr>"

section \<open>Properties of the link extractor\<close>













section \<open>Properties of the link checker\<close>

text \<open>
  Claim C1. \<open>check_link\<close> reports a link reachable exactly when \<^verbatim>\<open>requests.head\<close>
  returned a response whose status code is below 400, and then (as for every
  response) the first component is that status code. When \<^verbatim>\<open>requests.head\<close> raises,
  whatever the exception, the result is \<open>(None, False)\<close>: the exception is turned
  into a value, and the loop of \<open>crawl\<close> goes on with it.
\<close>

theorem check_link_classifies:
  "(snd (check_link env tr url) \<longleftrightarrow>
      (\<exists>response. requests_head env tr url = Returned response \<and> status_code response < 400)) \<and>
   (\<forall>response. requests_head env tr url = Returned response \<longrightarrow>
      fst (check_link env tr url) = Some (status_code response)) \<and>
   (\<forall>e. requests_head env tr url = Raised e \<longrightarrow> check_link env tr url = (None, False))"
  by (simp add: check_link_def split: outcome.splits)

theorem check_link_classifies_witness:
  "check_link example_env [] ''http://h/a'' = (Some 200, True) \<and>
   check_link example_env [] ''http://h/gone'' = (Some 404, False) \<and>
   check_link example_env [] ''http://x/i.png'' = (None, False)"
proof -
  have a: "requests_head example_env [] ''http://h/a'' = Returned \<lparr>status_code = 200, page_text = []\<rparr>"
    and g: "requests_head example_env [] ''http://h/gone'' = Returned \<lparr>status_code = 404, page_text = []\<rparr>"
    and x: "requests_head example_env [] ''http://x/i.png'' = Raised (Exn ''ConnectionError'')"
    by (simp_all add: example_env_def)
  have "check_link example_env [] ''http://h/a'' = (Some 200, True)"
    using check_link_classifies [of example_env "[]" "''http://h/a''"] a
    by (simp add: prod_eq_iff)
  moreover have "check_link example_env [] ''http://h/gone'' = (Some 404, False)"
    using check_link_classifies [of example_env "[]" "''http://h/gone''"] g
    by (simp add: prod_eq_iff)
  moreover have "check_link example_env [] ''http://x/i.png'' = (None, False)"
    using check_link_classifies [of example_env "[]" "''http://x/i.png''"] x
    by simp
  ultimately show ?thesis by simp
qed

section \<open>Properties of the crawl engine\<close>

subsection \<open>Every call extends the state\<close>

lemma pages_fetched_append: "pages_fetched (xs @ ys) = pages_fetched xs @ pages_fetched ys"
  by (induction xs rule: pages_fetched.induct) auto


lemma extendsI:
  assumes "trace s' = trace s @ evs" "results s' = results s @ rs"
    "visited s' = visited s \<union> set (pages_fetched evs)"
    "distinct (pages_fetched evs)" "set (pages_fetched evs) \<inter> visited s = {}"
  shows "extends s s'"
  using assms by (simp add: extends_def new_events_def new_results_def)

lemma extends_refl: "extends s s"
  by (rule extendsI [where evs = "[]" and rs = "[]"]) simp_all


lemma new_results_trans:
  assumes "extends s s'" "extends s' s''"
  shows "new_results s s'' = new_results s s' @ new_results s' s''"
proof -
  have "results s'' = results s @ (new_results s s' @ new_results s' s'')"
    using assms by (simp add: extends_def)
  then show ?thesis
    by (simp add: new_results_def [of s s''])
qed

lemma extends_trans:
  assumes "extends s s'" "extends s' s''"
  shows "extends s s''"
proof (rule extendsI)
  show "trace s'' = trace s @ (new_events s s' @ new_events s' s'')"
    using assms by (simp add: extends_def)
  show "results s'' = results s @ (new_results s s' @ new_results s' s'')"
    using assms by (simp add: extends_def)
  have v1: "visited s' = visited s \<union> set (pages_fetched (new_events s s'))"
    and v2: "visited s'' = visited s' \<union> set (pages_fetched (new_events s' s''))"
    using assms by (simp_all add: extends_def)
  show "visited s'' = visited s \<union> set (pages_fetched (new_events s s' @ new_events s' s''))"
    using v1 v2 by (auto simp: pages_fetched_append)
  have d1: "distinct (pages_fetched (new_events s s'))"
    and d2: "distinct (pages_fetched (new_events s' s''))"
    and i1: "set (pages_fetched (new_events s s')) \<inter> visited s = {}"
    and i2: "set (pages_fetched (new_events s' s'')) \<inter> visited s' = {}"
    using assms by (simp_all add: extends_def)
  show "distinct (pages_fetched (new_events s s' @ new_events s' s''))"
    using d1 d2 i2 v1 by (auto simp: pages_fetched_append)
  show "set (pages_fetched (new_events s s' @ new_events s' s'')) \<inter> visited s = {}"
    using i1 i2 v1 by (auto simp: pages_fetched_append)
qed

lemma extends_check:
  "extends s (s\<lparr>results := results s @ [r], trace := trace s @ [Head link]\<rparr>)"
  by (rule extendsI [where evs = "[Head link]" and rs = "[r]"]) simp_all

lemma extends_visit:
  assumes "url \<notin> visited s"
  shows "extends s (s\<lparr>visited := insert url (visited s), trace := trace s @ [Get url]\<rparr>)"
  using assms by (intro extendsI [where evs = "[Get url]" and rs = "[]"]) simp_all

lemma extends_page_error:
  assumes "url \<notin> visited s"
  shows "extends s (s\<lparr>visited := insert url (visited s), results := results s @ [r],
                       trace := trace s @ [Get url]\<rparr>)"
  using assms by (intro extendsI [where evs = "[Get url]" and rs = "[r]"]) simp_all

lemma crawl_extends:
  "extends s (crawl env url base_netloc depth max_depth s)"
  "extends s (crawl_links env base_netloc depth max_depth links s)"
proof (induction env url base_netloc depth max_depth s and env base_netloc depth max_depth links s
    rule: crawl_crawl_links.induct)
  case (1 env url base_netloc depth max_depth s)
  show ?case
  proof (cases "depth > max_depth \<or> url \<in> visited s")
    case True
    then show ?thesis by (simp add: crawl.simps extends_refl)
  next
    case False
    show ?thesis
    proof (cases "fetch_page env (trace s) url")
      case (Returned page)
      have "extends s (s\<lparr>visited := insert url (visited s), trace := trace s @ [Get url]\<rparr>)"
        using False by (simp add: extends_visit)
      with 1 [OF False Returned] show ?thesis
        using False Returned by (simp add: crawl.simps [of env url]) (rule extends_trans)
    next
      case (Raised e)
      then show ?thesis
        using False by (simp add: crawl.simps [of env url] extends_page_error)
    qed
  qed
next
  case (2 env base_netloc depth max_depth s)
  show ?case by (simp add: extends_refl)
next
  case (3 env base_netloc depth max_depth link links s)
  show ?case
  proof (cases "link \<in> visited s")
    case True
    with 3 show ?thesis by simp
  next
    case False
    let ?s1 = "s\<lparr>results := results s @ [(link, fst (check_link env (trace s) link),
                                          snd (check_link env (trace s) link), [])],
                  trace := trace s @ [Head link]\<rparr>"
    let ?s2 = "if is_internal env link base_netloc
               then crawl env link base_netloc (depth + 1) max_depth ?s1 else ?s1"
    have e1: "extends s ?s1" by (rule extends_check)
    have e2: "extends ?s1 ?s2"
      using 3(1) [OF False] by (simp add: extends_refl)
    have e3: "extends ?s2 (crawl_links env base_netloc depth max_depth links ?s2)"
      using 3(2) [OF False] .
    have "extends s (crawl_links env base_netloc depth max_depth links ?s2)"
      using e1 e2 e3 by (blast intro: extends_trans)
    then show ?thesis
      using False by simp
  qed
qed

lemma crawl_guard:
  "max_depth < depth \<or> url \<in> visited s \<Longrightarrow> crawl env url base_netloc depth max_depth s = s"
  by (simp add: crawl.simps)

lemma crawl_page_error:
  assumes "\<not> max_depth < depth" "url \<notin> visited s" "fetch_page env (trace s) url = Raised e"
  shows "crawl env url base_netloc depth max_depth s =
           s\<lparr>visited := insert url (visited s),
             results := results s @ [(url, None, False, ''PAGE ERROR'')],
             trace := trace s @ [Get url]\<rparr>"
  using assms by (simp add: crawl.simps [of env url])

lemma crawl_page_ok:
  assumes "\<not> max_depth < depth" "url \<notin> visited s" "fetch_page env (trace s) url = Returned page"
  shows "crawl env url base_netloc depth max_depth s =
           crawl_links env base_netloc depth max_depth (page_links env page url)
             (s\<lparr>visited := insert url (visited s), trace := trace s @ [Get url]\<rparr>)"
  using assms by (simp add: crawl.simps [of env url])







subsection \<open>Splitting what a call adds\<close>


lemma new_results_step:
  assumes "extends s1 s'" "results s1 = results s @ rs"
  shows "new_results s s' = rs @ new_results s1 s'"
proof -
  have "results s' = results s @ (rs @ new_results s1 s')"
    using assms by (simp add: extends_def)
  then show ?thesis
    by (simp add: new_results_def [of s s'])
qed


lemma new_results_same: "new_results s s = []"
  by (simp add: new_results_def)

lemma extends_visited_mono: "extends s s' \<Longrightarrow> visited s \<subseteq> visited s'"
  by (auto simp: extends_def)


lemma new_results_crawl_page_ok:
  assumes "\<not> max_depth < depth" "url \<notin> visited s" "fetch_page env (trace s) url = Returned page"
  shows "new_results s (crawl env url base_netloc depth max_depth s) =
           new_results (s\<lparr>visited := insert url (visited s), trace := trace s @ [Get url]\<rparr>)
             (crawl_links env base_netloc depth max_depth (page_links env page url)
                (s\<lparr>visited := insert url (visited s), trace := trace s @ [Get url]\<rparr>))"
  using new_results_step [OF crawl_extends(2), of _ s "[]"] assms
  by (simp add: crawl_page_ok)


lemma new_results_crawl_page_error:
  assumes "\<not> max_depth < depth" "url \<notin> visited s" "fetch_page env (trace s) url = Raised e"
  shows "new_results s (crawl env url base_netloc depth max_depth s) =
           [(url, None, False, ''PAGE ERROR'')]"
  using assms by (simp add: crawl_page_error new_results_def)

lemma crawl_links_Cons:
  "crawl_links env base_netloc depth max_depth (link # links) s =
     (if link \<notin> visited s
      then crawl_links env base_netloc depth max_depth links
             (followed env base_netloc depth max_depth link s)
      else crawl_links env base_netloc depth max_depth links s)"
  by (simp add: followed_def checked_def)

lemma visited_checked: "visited (checked env link s) = visited s"
  by (simp add: checked_def)


lemma extends_followed:
  "extends (checked env link s) (followed env base_netloc depth max_depth link s)"
  by (simp add: followed_def crawl_extends extends_refl)


lemma new_results_round:
  "new_results s (crawl_links env base_netloc depth max_depth links
                   (followed env base_netloc depth max_depth link s)) =
     (link, fst (check_link env (trace s) link), snd (check_link env (trace s) link), []) #
     new_results (checked env link s) (followed env base_netloc depth max_depth link s) @
     new_results (followed env base_netloc depth max_depth link s)
       (crawl_links env base_netloc depth max_depth links
          (followed env base_netloc depth max_depth link s))"
proof -
  let ?s1 = "checked env link s"
  let ?s2 = "followed env base_netloc depth max_depth link s"
  let ?s3 = "crawl_links env base_netloc depth max_depth links ?s2"
  have "extends ?s1 ?s3"
    using extends_followed crawl_extends(2) by (rule extends_trans)
  then have "new_results s ?s3 =
      [(link, fst (check_link env (trace s) link), snd (check_link env (trace s) link), [])]
        @ new_results ?s1 ?s3"
    by (rule new_results_step) (simp add: checked_def)
  moreover have "new_results ?s1 ?s3 = new_results ?s1 ?s2 @ new_results ?s2 ?s3"
    using extends_followed crawl_extends(2) by (rule new_results_trans)
  ultimately show ?thesis by simp
qed

subsection \<open>Only the first page and internal links are fetched\<close>


subsection \<open>No record is about a page that had been visited\<close>

lemma crawl_records_unvisited:
  "\<forall>r\<in>set (new_results s (crawl env url base_netloc depth max_depth s)).
     fst r \<notin> visited s \<and>
     (fst r = url \<longrightarrow>
        r = (url, None, False, ''PAGE ERROR'') \<and> (\<exists>e. fetch_page env (trace s) url = Raised e))"
  "\<forall>r\<in>set (new_results s (crawl_links env base_netloc depth max_depth links s)).
     fst r \<notin> visited s"
proof (induction env url base_netloc depth max_depth s and env base_netloc depth max_depth links s
    rule: crawl_crawl_links.induct)
  case (1 env url base_netloc depth max_depth s)
  show ?case
  proof (cases "depth > max_depth \<or> url \<in> visited s")
    case True
    then show ?thesis by (simp add: crawl_guard new_results_same)
  next
    case False
    show ?thesis
    proof (cases "fetch_page env (trace s) url")
      case (Returned page)
      with 1 [OF False Returned] False show ?thesis
        by (auto simp: new_results_crawl_page_ok)
    next
      case (Raised e)
      with False show ?thesis
        by (simp add: new_results_crawl_page_error)
    qed
  qed
next
  case (2 env base_netloc depth max_depth s)
  show ?case by (simp add: new_results_same)
next
  case (3 env base_netloc depth max_depth link links s)
  show ?case
  proof (cases "link \<in> visited s")
    case True
    with 3(3) show ?thesis by simp
  next
    case False
    let ?s1 = "checked env link s"
    let ?s2 = "followed env base_netloc depth max_depth link s"
    have a: "\<forall>r\<in>set (new_results ?s1 ?s2). fst r \<notin> visited s"
    proof (cases "is_internal env link base_netloc")
      case True
      have "\<forall>r\<in>set (new_results ?s1
                (crawl env link base_netloc (depth + 1) max_depth ?s1)).
              fst r \<notin> visited ?s1"
        using 3(1) [OF False True] unfolding checked_def by blast
      with True show ?thesis
        by (simp add: followed_def visited_checked)
    next
      case False
      then show ?thesis by (simp add: followed_def new_results_same)
    qed
    have "visited s \<subseteq> visited ?s2"
      using extends_visited_mono [OF extends_followed, of env link s base_netloc depth max_depth]
      by (simp add: visited_checked)
    moreover have "\<forall>r\<in>set (new_results ?s2
                (crawl_links env base_netloc depth max_depth links ?s2)). fst r \<notin> visited ?s2"
      using 3(2) [OF False] unfolding followed_def checked_def .
    ultimately have b: "\<forall>r\<in>set (new_results ?s2
                (crawl_links env base_netloc depth max_depth links ?s2)). fst r \<notin> visited s"
      by blast
    show ?thesis
      using False a b
      by (simp add: crawl_links_Cons new_results_round ball_Un del: crawl_links.simps)
  qed
qed

lemmas example_simps = example_env_def start_checking_def initial_state_def crawl.simps fetch_page_def
  page_links_def extract_links_def tags_attrs_def find_all_def extract_element_def element_get_def
  set_add_def check_link_def is_internal_def

subsection \<open>Totality of the recursion\<close>

lemma crawl_crawl_links_total: "crawl_crawl_links_dom x"
proof -
  have "All crawl_crawl_links_dom"
    by (relation "measures [\<lambda>x. case x of
                     Inl (env, url, base_netloc, depth, max_depth, s) \<Rightarrow> 2 * nat (max_depth + 1 - depth)
                   | Inr (env, base_netloc, depth, max_depth, links, s) \<Rightarrow> 2 * nat (max_depth - depth) + 1,
                  \<lambda>x. case x of
                     Inl (env, url, base_netloc, depth, max_depth, s) \<Rightarrow> 0
                   | Inr (env, base_netloc, depth, max_depth, links, s) \<Rightarrow> length links]")
      auto
  then show ?thesis ..
qed

subsection \<open>Page errors\<close>



subsection \<open>The guard and the depth bound\<close>




subsection \<open>Termination, and one fetch for each page\<close>

text \<open>
  Claim C6. \<open>crawl\<close> terminates on every input, whatever the pages link to and
  whether or not the links form a cycle: every chain of nested calls is finite (the
  call is in the domain of the recursion), so the function returns a state. The
  pages it requests are pairwise different and none of them was in \<open>visited\<close> when
  the call started, because a page is requested only after the test of the guard and
  is put into \<open>visited\<close> before the request. (The request that the script sends for
  the seed before the crawl, to size the progress bar, is not a request of \<open>crawl\<close>;
  it is the first entry of the trace of \<open>start_checking\<close>.)
\<close>

theorem crawl_terminates_fetching_once:
  "crawl_crawl_links_dom (Inl (env, url, base_netloc, depth, max_depth, s)) \<and>
   trace (crawl env url base_netloc depth max_depth s) =
     trace s @ new_events s (crawl env url base_netloc depth max_depth s) \<and>
   distinct (pages_fetched (new_events s (crawl env url base_netloc depth max_depth s))) \<and>
   set (pages_fetched (new_events s (crawl env url base_netloc depth max_depth s))) \<inter> visited s = {}"
  using crawl_extends(1) [of s env url base_netloc depth max_depth]
  by (simp add: crawl_crawl_links_total extends_def)

theorem crawl_terminates_fetching_once_witness:
  "trace (start_checking example_env ''http://h/'' 3) =
     [Get ''http://h/'', Get ''http://h/'', Head ''http://h/a'', Get ''http://h/a'',
      Head ''http://x/i.png'', Head ''http://h/gone'', Get ''http://h/gone'',
      Head ''http://x/i.png''] \<and>
   distinct (pages_fetched (new_events (initial_state ''http://h/'')
      (crawl example_env ''http://h/'' ''h'' 0 3 (initial_state ''http://h/''))))"
proof -
  have "trace (start_checking example_env ''http://h/'' 3) =
     [Get ''http://h/'', Get ''http://h/'', Head ''http://h/a'', Get ''http://h/a'',
      Head ''http://x/i.png'', Head ''http://h/gone'', Get ''http://h/gone'',
      Head ''http://x/i.png'']"
    by (simp add: example_simps)
  then show ?thesis
    using crawl_terminates_fetching_once
      [of example_env "''http://h/''" "''h''" 0 3 "initial_state ''http://h/''"]
    by simp
qed

subsection \<open>Depth zero\<close>



subsection \<open>The seed is not among the links\<close>

text \<open>
  Claim C10. A call of \<open>crawl\<close> on a seed appends a record whose URL is the seed only
  when the fetch of the seed fails, and then it is the record
  \<open>(seed, None, False, ''PAGE ERROR'')\<close>: the seed is in \<open>visited\<close> from the start of
  the call on, \<open>visited\<close> only grows, and every other record is about a link that was
  not in \<open>visited\<close> when it was checked. So the result list of a crawl whose seed is
  fetched has no record of the seed.
\<close>

theorem seed_recorded_only_as_page_error:
  "visited s \<subseteq> visited (crawl env seed base_netloc depth max_depth s) \<and>
   (\<forall>r\<in>set (new_results s (crawl env seed base_netloc depth max_depth s)).
      fst r = seed \<longrightarrow>
        r = (seed, None, False, ''PAGE ERROR'') \<and>
        (\<exists>e. fetch_page env (trace s) seed = Raised e)) \<and>
   (\<forall>page. fetch_page env [Get seed] seed = Returned page \<longrightarrow>
      seed \<notin> fst ` set (results (start_checking env seed max_depth))) \<and>
   (\<forall>r\<in>set (results (start_checking env seed max_depth)).
      fst r = seed \<longrightarrow> r = (seed, None, False, ''PAGE ERROR''))"
proof (intro conjI)
  show "visited s \<subseteq> visited (crawl env seed base_netloc depth max_depth s)"
    using crawl_extends(1) by (rule extends_visited_mono)
  show g: "\<forall>r\<in>set (new_results s (crawl env seed base_netloc depth max_depth s)).
      fst r = seed \<longrightarrow>
        r = (seed, None, False, ''PAGE ERROR'') \<and>
        (\<exists>e. fetch_page env (trace s) seed = Raised e)" for s base_netloc depth
    using crawl_records_unvisited(1) [of s env seed base_netloc depth max_depth] by blast
  have r: "results (start_checking env seed max_depth) =
      new_results (initial_state seed)
        (crawl env seed (urlparse_netloc env seed) 0 max_depth (initial_state seed))"
    by (simp add: start_checking_def new_results_def initial_state_def)
  show "\<forall>page. fetch_page env [Get seed] seed = Returned page \<longrightarrow>
      seed \<notin> fst ` set (results (start_checking env seed max_depth))"
    using g [of "initial_state seed" "urlparse_netloc env seed" 0]
    unfolding r by (auto simp: initial_state_def)
  show "\<forall>r\<in>set (results (start_checking env seed max_depth)).
      fst r = seed \<longrightarrow> r = (seed, None, False, ''PAGE ERROR'')"
    using g [of "initial_state seed" "urlparse_netloc env seed" 0]
    unfolding r by blast
qed

theorem seed_recorded_only_as_page_error_witness:
  "''http://h/'' \<notin> fst ` set (results (start_checking example_env ''http://h/'' 3)) \<and>
   results (start_checking example_env ''http://h/gone'' 3) =
     [(''http://h/gone'', None, False, ''PAGE ERROR'')]"
proof -
  have f: "fetch_page example_env [Get ''http://h/''] ''http://h/'' =
      Returned \<lparr>status_code = 200, page_text = ''P0''\<rparr>"
    by (simp add: fetch_page_def example_env_def)
  have "''http://h/'' \<notin> fst ` set (results (start_checking example_env ''http://h/'' 3))"
    using seed_recorded_only_as_page_error
      [where env = example_env and seed = "''http://h/''" and max_depth = 3] f
    by blast
  moreover have "results (start_checking example_env ''http://h/gone'' 3) =
     [(''http://h/gone'', None, False, ''PAGE ERROR'')]"
    by (simp add: example_simps)
  ultimately show ?thesis by simp
qed

subsection \<open>External links are checked and never fetched\<close>








subsection \<open>The same link can be checked more than once\<close>

text \<open>
  Claim C9. The set \<open>visited\<close> holds the pages that were requested, and nothing else
  is added to it: a link that was only checked is not in it. So the test
  \<^verbatim>\<open>link not in visited\<close> of the loop skips the links that are pages already requested,
  and it does not keep a link from being checked again. On the small site, with depth
  1, the image \<^verbatim>\<open>http://x/i.png\<close> is referenced by the pages \<^verbatim>\<open>http://h/\<close> and
  \<^verbatim>\<open>http://h/a\<close>; it is checked twice and has two records in the raw result list.
\<close>

theorem visited_guard_does_not_deduplicate_checks:
  "visited (crawl env url base_netloc depth max_depth s) =
     visited s \<union> set (pages_fetched (new_events s (crawl env url base_netloc depth max_depth s))) \<and>
   links_checked (trace (start_checking example_env ''http://h/'' 1)) =
     [''http://h/a'', ''http://x/i.png'', ''http://h/gone'', ''http://x/i.png''] \<and>
   results (start_checking example_env ''http://h/'' 1) =
     [(''http://h/a'', Some 200, True, []),
      (''http://x/i.png'', None, False, []),
      (''http://h/gone'', Some 404, False, []),
      (''http://h/gone'', None, False, ''PAGE ERROR''),
      (''http://x/i.png'', None, False, [])] \<and>
   visited (start_checking example_env ''http://h/'' 1) =
     {''http://h/'', ''http://h/a'', ''http://h/gone''}"
proof (intro conjI)
  show "visited (crawl env url base_netloc depth max_depth s) =
     visited s \<union> set (pages_fetched (new_events s (crawl env url base_netloc depth max_depth s)))"
    using crawl_extends(1) [of s env url base_netloc depth max_depth]
    by (simp add: extends_def)
  show "links_checked (trace (start_checking example_env ''http://h/'' 1)) =
     [''http://h/a'', ''http://x/i.png'', ''http://h/gone'', ''http://x/i.png'']"
    by code_simp
  show "results (start_checking example_env ''http://h/'' 1) =
     [(''http://h/a'', Some 200, True, []),
      (''http://x/i.png'', None, False, []),
      (''http://h/gone'', Some 404, False, []),
      (''http://h/gone'', None, False, ''PAGE ERROR''),
      (''http://x/i.png'', None, False, [])]"
    by code_simp
  show "visited (start_checking example_env ''http://h/'' 1) =
     {''http://h/'', ''http://h/a'', ''http://h/gone''}"
    by (simp add: example_simps insert_commute)
qed

theorem visited_guard_does_not_deduplicate_checks_witness:
  "\<not> distinct (map fst (results (start_checking example_env ''http://h/'' 1))) \<and>
   ''http://x/i.png'' \<notin> visited (start_checking example_env ''http://h/'' 1)"
  using visited_guard_does_not_deduplicate_checks by simp

section \<open>Properties of the result aggregator\<close>

lemma dict_keys_Nil: "dict_keys [] = []"
  by (simp add: dict_keys_def)

lemma dict_keys_setitem:
  "dict_keys (dict_setitem d k v) =
     (if k \<in> set (dict_keys d) then dict_keys d else dict_keys d @ [k])"
  by (induction d) (force simp: dict_keys_def)+

lemma dict_getitem_setitem:
  "dict_getitem (dict_setitem d k v) k' = (if k' = k then Some v else dict_getitem d k')"
  by (induction d) auto

lemma dict_getitem_None_iff: "dict_getitem d k = None \<longleftrightarrow> k \<notin> set (dict_keys d)"
  by (induction d) (force simp: dict_keys_def)+

lemma unique_results_fold:
  "unique_results rs = fold (\<lambda>r d. dict_setitem d (fst r) (snd r)) rs []"
proof -
  have "(\<lambda>(url, status_code, ok, note) d. dict_setitem d url (status_code, ok, note)) =
        (\<lambda>(r :: link_record) d. dict_setitem d (fst r) (snd r))"
    by (auto simp: fun_eq_iff)
  then show ?thesis
    by (simp add: unique_results_def)
qed

lemma set_first_occurrences: "set (first_occurrences xs) = set xs"
  by (induction xs) auto

lemma distinct_first_occurrences: "distinct (first_occurrences xs)"
  by (induction xs) (auto simp: set_first_occurrences)

lemma dict_keys_fold_setitem:
  "dict_keys (fold (\<lambda>r d. dict_setitem d (fst r) (snd r)) rs d) =
     dict_keys d @ filter (\<lambda>k. k \<notin> set (dict_keys d)) (first_occurrences (map fst rs))"
proof (induction rs arbitrary: d)
  case Nil
  show ?case by simp
next
  case (Cons r rs)
  show ?case
  proof (cases "fst r \<in> set (dict_keys d)")
    case True
    have "filter (\<lambda>k. k \<notin> set (dict_keys d)) (filter (\<lambda>y. y \<noteq> fst r) (first_occurrences (map fst rs)))
        = filter (\<lambda>k. k \<notin> set (dict_keys d)) (first_occurrences (map fst rs))"
      using True by (auto intro: filter_cong)
    with True show ?thesis
      by (simp add: Cons.IH dict_keys_setitem)
  next
    case False
    have "filter (\<lambda>k. k \<noteq> fst r \<and> k \<notin> set (dict_keys d)) (first_occurrences (map fst rs))
        = filter (\<lambda>k. k \<notin> set (dict_keys d)) (filter (\<lambda>y. y \<noteq> fst r) (first_occurrences (map fst rs)))"
      by (auto intro: filter_cong)
    with False show ?thesis
      by (simp add: Cons.IH dict_keys_setitem)
  qed
qed

lemma dict_getitem_fold_setitem:
  "dict_getitem (fold (\<lambda>r d. dict_setitem d (fst r) (snd r)) rs d) k =
     (if k \<in> fst ` set rs then Some (snd (last (filter (\<lambda>r. fst r = k) rs)))
      else dict_getitem d k)"
proof (induction rs arbitrary: d)
  case Nil
  show ?case by simp
next
  case (Cons r rs)
  show ?case
  proof (cases "k \<in> fst ` set rs")
    case True
    then have "filter (\<lambda>r. fst r = k) rs \<noteq> []"
      by (auto simp: filter_empty_conv)
    with True show ?thesis
      by (simp add: Cons.IH)
  next
    case False
    then have "filter (\<lambda>r. fst r = k) rs = []"
      by (auto simp: filter_empty_conv)
    with False show ?thesis
      by (auto simp: Cons.IH dict_getitem_setitem)
  qed
qed

lemma result_rows_lookup:
  "set ks \<subseteq> set (dict_keys d) \<Longrightarrow>
     result_rows d ks = Some (map (\<lambda>k. (k, the (dict_getitem d k))) ks)"
proof (induction ks)
  case Nil
  show ?case by simp
next
  case (Cons k ks)
  then obtain v where "dict_getitem d k = Some v"
    using dict_getitem_None_iff [of d k] by auto
  with Cons show ?case by simp
qed

lemma lookup_own_keys:
  "distinct (dict_keys d) \<Longrightarrow> map (\<lambda>k. (k, the (dict_getitem d k))) (dict_keys d) = d"
proof (induction d)
  case Nil
  show ?case by (simp add: dict_keys_def)
next
  case (Cons p d)
  obtain k v where p: "p = (k, v)" by (cases p)
  have "map (\<lambda>k'. (k', the (dict_getitem (p # d) k'))) (dict_keys d) =
        map (\<lambda>k'. (k', the (dict_getitem d k'))) (dict_keys d)"
    using Cons.prems p by (auto simp: dict_keys_def)
  with Cons p show ?case
    by (simp add: dict_keys_def)
qed

lemma result_rows_self:
  "distinct (dict_keys d) \<Longrightarrow> result_rows d (dict_keys d) = Some d"
  by (simp add: result_rows_lookup lookup_own_keys)

lemma dict_keys_unique_results:
  "dict_keys (unique_results rs) = first_occurrences (map fst rs)"
  by (simp add: unique_results_fold dict_keys_fold_setitem dict_keys_Nil)

lemma distinct_keys_unique_results: "distinct (dict_keys (unique_results rs))"
  by (simp add: dict_keys_unique_results distinct_first_occurrences)

lemma deduplicate_unique_results: "deduplicate rs = Some (unique_results rs)"
  using distinct_keys_unique_results [of rs]
  by (simp add: deduplicate_def Let_def result_rows_self)

lemma dict_getitem_member:
  "distinct (dict_keys d) \<Longrightarrow> (k, v) \<in> set d \<Longrightarrow> dict_getitem d k = Some v"
  by (induction d) (force simp: dict_keys_def)+

lemma count_broken_eq:
  "count_broken rs = int (length (filter (\<lambda>r. \<not> fst (snd (snd r))) rs))"
proof -
  have "(\<lambda>(url, status_code, ok, note). \<not> ok) = (\<lambda>r :: link_record. \<not> fst (snd (snd r)))"
    by auto
  then show ?thesis
    by (simp add: count_broken_def sum_list_triv)
qed

lemma unique_results_last:
  assumes "r \<in> set (unique_results rs)"
  shows "r = last (filter (\<lambda>r'. fst r' = fst r) rs)"
proof -
  have "fst r \<in> set (dict_keys (unique_results rs))"
    using assms by (auto simp: dict_keys_def)
  then have m: "fst r \<in> fst ` set rs"
    by (simp add: dict_keys_unique_results set_first_occurrences)
  then have "filter (\<lambda>r'. fst r' = fst r) rs \<noteq> []"
    by (force simp: filter_empty_conv)
  then have "last (filter (\<lambda>r'. fst r' = fst r) rs) \<in> set (filter (\<lambda>r'. fst r' = fst r) rs)"
    by (rule last_in_set)
  then have f: "fst (last (filter (\<lambda>r'. fst r' = fst r) rs)) = fst r"
    by simp
  have "dict_getitem (unique_results rs) (fst r) = Some (snd r)"
    using distinct_keys_unique_results assms
    by (intro dict_getitem_member) simp_all
  then have "snd (last (filter (\<lambda>r'. fst r' = fst r) rs)) = snd r"
    using m by (simp add: unique_results_fold dict_getitem_fold_setitem)
  with f show ?thesis
    by (simp add: prod_eq_iff)
qed

text \<open>
  Claim C5. The aggregation never fails with a \<^verbatim>\<open>KeyError\<close>. The deduplicated list
  has one entry for each URL of the raw list, and no URL twice; the URLs stand in the
  order of their first occurrence in the raw list; the entry of a URL is the last
  record of that URL in the raw list. In the summary, \<open>total\<close> is the length of the
  deduplicated list, \<open>broken\<close> is the number of its entries whose flag is false, and
  \<open>working + broken = total\<close>.
\<close>

theorem aggregation_last_wins_first_order:
  "\<exists>d. deduplicate rs = Some d \<and>
       distinct (map fst d) \<and>
       map fst d = first_occurrences (map fst rs) \<and>
       (\<forall>r\<in>set d. r = last (filter (\<lambda>r'. fst r' = fst r) rs)) \<and>
       total (summarize d) = int (length d) \<and>
       broken (summarize d) = int (length (filter (\<lambda>r. \<not> fst (snd (snd r))) d)) \<and>
       working (summarize d) + broken (summarize d) = total (summarize d)"
proof (intro exI conjI)
  show "deduplicate rs = Some (unique_results rs)"
    by (rule deduplicate_unique_results)
  show "distinct (map fst (unique_results rs))"
    using distinct_keys_unique_results [of rs] by (simp add: dict_keys_def)
  show "map fst (unique_results rs) = first_occurrences (map fst rs)"
    using dict_keys_unique_results [of rs] by (simp add: dict_keys_def)
  show "\<forall>r\<in>set (unique_results rs). r = last (filter (\<lambda>r'. fst r' = fst r) rs)"
    using unique_results_last by blast
  show "total (summarize (unique_results rs)) = int (length (unique_results rs))"
    by (simp add: summarize_def Let_def)
  show "broken (summarize (unique_results rs)) =
      int (length (filter (\<lambda>r. \<not> fst (snd (snd r))) (unique_results rs)))"
    by (simp add: summarize_def Let_def count_broken_eq)
  show "working (summarize (unique_results rs)) + broken (summarize (unique_results rs)) =
      total (summarize (unique_results rs))"
    by (simp add: summarize_def Let_def)
qed

theorem aggregation_last_wins_first_order_witness:
  "deduplicate (results (start_checking example_env ''http://h/'' 1)) =
     Some [(''http://h/a'', Some 200, True, []),
           (''http://x/i.png'', None, False, []),
           (''http://h/gone'', None, False, ''PAGE ERROR'')] \<and>
   summarize [(''http://h/a'', Some 200, True, []),
              (''http://x/i.png'', None, False, []),
              (''http://h/gone'', None, False, ''PAGE ERROR'')] =
     \<lparr>total = 3, working = 1, broken = 2\<rparr>"
proof -
  have r: "results (start_checking example_env ''http://h/'' 1) =
     [(''http://h/a'', Some 200, True, []),
      (''http://x/i.png'', None, False, []),
      (''http://h/gone'', Some 404, False, []),
      (''http://h/gone'', None, False, ''PAGE ERROR''),
      (''http://x/i.png'', None, False, [])]"
    by code_simp
  obtain d where d: "deduplicate (results (start_checking example_env ''http://h/'' 1)) = Some d"
    and k: "map fst d = first_occurrences (map fst (results (start_checking example_env ''http://h/'' 1)))"
    and l: "\<forall>r\<in>set d. r = last (filter (\<lambda>r'. fst r' = fst r)
        (results (start_checking example_env ''http://h/'' 1)))"
    using aggregation_last_wins_first_order
      [of "results (start_checking example_env ''http://h/'' 1)"] by blast
  have "map fst d = [''http://h/a'', ''http://x/i.png'', ''http://h/gone'']"
    using k unfolding r by simp
  then obtain r1 r2 r3 where e: "d = [r1, r2, r3]"
    and f: "fst r1 = ''http://h/a''" "fst r2 = ''http://x/i.png''" "fst r3 = ''http://h/gone''"
    by (auto simp: map_eq_Cons_conv)
  have "r1 = (''http://h/a'', Some 200, True, [])"
    "r2 = (''http://x/i.png'', None, False, [])"
    "r3 = (''http://h/gone'', None, False, ''PAGE ERROR'')"
    using l f unfolding r e by simp_all
  with d e have "deduplicate (results (start_checking example_env ''http://h/'' 1)) =
     Some [(''http://h/a'', Some 200, True, []),
           (''http://x/i.png'', None, False, []),
           (''http://h/gone'', None, False, ''PAGE ERROR'')]"
    by simp
  moreover have "summarize [(''http://h/a'', Some 200, True, []),
              (''http://x/i.png'', None, False, []),
              (''http://h/gone'', None, False, ''PAGE ERROR'')] =
     \<lparr>total = 3, working = 1, broken = 2\<rparr>"
    by (simp add: summarize_def count_broken_def)
  ultimately show ?thesis by simp
qed

end
